theory Spec2Isabelle
  imports Complex_Main "HOL-Library.Word" "HOL-Library.Log_Nat"
begin

section \<open>example05.c: colour to grayscale by direct pixel access\<close>

text \<open>
  The program is a single \<^verbatim>\<open>main\<close>. Its core is the nested loop of lines 173 to 186
  that walks the pixel data of the loaded colour image and stores one gray byte per
  pixel; the rest is a driver around the image library. Both are embedded here: the loop
  as recursive functions over byte buffers, the driver as a function of what the library
  calls answer.
\<close>

subsection \<open>Bytes and double precision arithmetic\<close>

text \<open>
  \<^verbatim>\<open>unsigned char\<close> is an 8 bit word. The statement
  \<^verbatim>\<open>gray = 0.299 * red + 0.587 * green + 0.114 * blue;\<close>
  is evaluated by C in \<^verbatim>\<open>double\<close>: the three literals are the doubles nearest to the
  decimals, each byte is converted exactly, each product and each sum is rounded to the
  nearest double (ties to even), and the assignment to an \<^verbatim>\<open>unsigned char\<close> drops the
  fraction. A double is modelled as the real number it denotes; \<open>round_double\<close> maps a real
  to the nearest binary64 value, with 53 significant bits and the exponent of subnormal
  numbers held at \<open>-1022\<close>. Overflow to infinity is not modelled: the values of this
  program stay below 512. This is the arithmetic of a C implementation with IEEE 754
  doubles that rounds every operation to double, as on x86-64.
\<close>

type_synonym uchar = "8 word"

type_synonym double = real

text \<open>The integer nearest to \<open>q\<close>, the even one of the two when \<open>q\<close> lies half way.\<close>

definition round_even :: "real \<Rightarrow> int" where
  "round_even q =
     (let f = \<lfloor>q\<rfloor>; d = q - of_int f
      in if d < 1 / 2 then f else if 1 / 2 < d then f + 1 else if even f then f else f + 1)"

text \<open>The binary exponent of \<open>x\<close>: the \<open>e\<close> with \<open>2\<^sup>e \<le> \<bar>x\<bar> < 2\<^sup>e\<^sup>+\<^sup>1\<close>.\<close>

definition expo :: "real \<Rightarrow> int" where
  "expo x = (if 1 \<le> \<bar>x\<bar> then bitlen \<lfloor>\<bar>x\<bar>\<rfloor> - 1 else - bitlen (\<lceil>1 / \<bar>x\<bar>\<rceil> - 1))"

text \<open>The distance between neighbouring doubles around \<open>x\<close>.\<close>

definition ulp :: "real \<Rightarrow> real" where
  "ulp x = 2 powi (max (expo x) (- 1022) - 52)"

definition round_double :: "real \<Rightarrow> double" where
  "round_double x = (if x = 0 then 0 else of_int (round_even (x / ulp x)) * ulp x)"

definition dmul :: "double \<Rightarrow> double \<Rightarrow> double" where
  "dmul a b = round_double (a * b)"

definition dadd :: "double \<Rightarrow> double \<Rightarrow> double" where
  "dadd a b = round_double (a + b)"

text \<open>The integer promotion of a byte followed by the conversion to double: exact.\<close>

definition double_of_uchar :: "uchar \<Rightarrow> double" where
  "double_of_uchar v = of_nat (unat v)"

text \<open>
  Conversion of a double to \<^verbatim>\<open>unsigned char\<close>: the fraction is discarded. C leaves the
  conversion undefined when the integer part does not fit; \<open>gray_double_range\<close> below shows
  that the loop never gets there.
\<close>

definition trunc :: "real \<Rightarrow> int" where
  "trunc x = (if 0 \<le> x then \<lfloor>x\<rfloor> else \<lceil>x\<rceil>)"

definition uchar_of_double :: "double \<Rightarrow> uchar" where
  "uchar_of_double x = word_of_int (trunc x)"

text \<open>Line 181, the right-hand side: \<^verbatim>\<open>0.299 * red + 0.587 * green + 0.114 * blue\<close>.\<close>

definition gray_double :: "uchar \<Rightarrow> uchar \<Rightarrow> uchar \<Rightarrow> double" where
  "gray_double red green blue =
     dadd (dadd (dmul (round_double (299 / 1000)) (double_of_uchar red))
                (dmul (round_double (587 / 1000)) (double_of_uchar green)))
          (dmul (round_double (114 / 1000)) (double_of_uchar blue))"

text \<open>Line 181, the value stored in \<^verbatim>\<open>gray\<close>.\<close>

definition gray_of :: "uchar \<Rightarrow> uchar \<Rightarrow> uchar \<Rightarrow> uchar" where
  "gray_of red green blue = uchar_of_double (gray_double red green blue)"

text \<open>
  The luminance of section 4.2 of the specification, in its words: the real-valued
  \<open>Y = 0.299 R + 0.587 G + 0.114 B\<close> with the coefficients used exactly as stated, reduced to
  a byte by truncation toward zero.
\<close>

definition Y_real :: "uchar \<Rightarrow> uchar \<Rightarrow> uchar \<Rightarrow> real" where
  "Y_real red green blue =
     299 / 1000 * of_nat (unat red) + 587 / 1000 * of_nat (unat green)
       + 114 / 1000 * of_nat (unat blue)"

definition gray_contract :: "uchar \<Rightarrow> uchar \<Rightarrow> uchar \<Rightarrow> uchar" where
  "gray_contract red green blue = word_of_int (trunc (Y_real red green blue))"

text \<open>A thousand times the exact luminance, a natural number.\<close>

definition lum1000 :: "uchar \<Rightarrow> uchar \<Rightarrow> uchar \<Rightarrow> nat" where
  "lum1000 red green blue = 299 * unat red + 587 * unat green + 114 * unat blue"

subsection \<open>Images and pixel buffers\<close>

text \<open>
  The fields of the library's \<^verbatim>\<open>IplImage\<close> that the program touches. They are C
  \<^verbatim>\<open>int\<close>s, and never negative in an image the library hands out, so they are natural
  numbers here; the size of the pixel buffer is an \<^verbatim>\<open>int\<close> field of the same struct, so
  every offset into the buffer fits the \<^verbatim>\<open>int\<close> arithmetic of the loop. The model's
  arithmetic on offsets is unbounded, and an offset outside the buffer is a failure.
  \<open>imageData\<close> is the buffer itself, \<open>widthStep\<close> the number of bytes from one row to the
  next.
\<close>

record IplImage =
  nChannels :: nat
  depth :: nat
  width :: nat
  height :: nat
  widthStep :: nat
  imageData :: "uchar list"

text \<open>
  C gives no meaning to an access outside the allocated buffer. The model makes it a
  failure: \<open>None\<close> is returned and the loop stops.
\<close>

definition read_at :: "uchar list \<Rightarrow> nat \<Rightarrow> uchar option" where
  "read_at buf i = (if i < length buf then Some (buf ! i) else None)"

definition write_at :: "uchar list \<Rightarrow> nat \<Rightarrow> uchar \<Rightarrow> uchar list option" where
  "write_at buf i v = (if i < length buf then Some (buf[i := v]) else None)"

subsection \<open>The conversion loop, lines 173 to 186\<close>

text \<open>The four subscripts of lines 176, 177, 178 and 184.\<close>

definition blue_index :: "nat \<Rightarrow> nat \<Rightarrow> nat \<Rightarrow> nat" where
  "blue_index colorstep row col = row * colorstep + col"

definition green_index :: "nat \<Rightarrow> nat \<Rightarrow> nat \<Rightarrow> nat" where
  "green_index colorstep row col = row * colorstep + col + 1"

definition red_index :: "nat \<Rightarrow> nat \<Rightarrow> nat \<Rightarrow> nat" where
  "red_index colorstep row col = row * colorstep + col + 2"

definition gray_index :: "nat \<Rightarrow> nat \<Rightarrow> nat \<Rightarrow> nat" where
  "gray_index graystep row col = row * graystep + col"

text \<open>The body of the inner loop: three reads, the formula, one write.\<close>

definition pixel ::
  "uchar list \<Rightarrow> nat \<Rightarrow> nat \<Rightarrow> nat \<Rightarrow> nat \<Rightarrow> uchar list \<Rightarrow> uchar list option" where
  "pixel colorData colorstep graystep row col grayData =
     (case read_at colorData (blue_index colorstep row col) of
        None \<Rightarrow> None
      | Some blue \<Rightarrow>
     (case read_at colorData (green_index colorstep row col) of
        None \<Rightarrow> None
      | Some green \<Rightarrow>
     (case read_at colorData (red_index colorstep row col) of
        None \<Rightarrow> None
      | Some red \<Rightarrow>
          write_at grayData (gray_index graystep row col) (gray_of red green blue))))"

text \<open>
  The byte that one pass of the body stores for \<open>(row, col)\<close> when its three reads are
  inside the colour buffer.
\<close>

definition loop_byte :: "uchar list \<Rightarrow> nat \<Rightarrow> nat \<Rightarrow> nat \<Rightarrow> uchar" where
  "loop_byte colorData colorstep row col =
     gray_of (colorData ! red_index colorstep row col)
             (colorData ! green_index colorstep row col)
             (colorData ! blue_index colorstep row col)"

text \<open>\<^verbatim>\<open>for(col = 0; col < colorimg->width; ++col)\<close>, entered with the current \<open>col\<close>.\<close>

function col_loop ::
  "uchar list \<Rightarrow> nat \<Rightarrow> nat \<Rightarrow> nat \<Rightarrow> nat \<Rightarrow> nat \<Rightarrow> uchar list \<Rightarrow> uchar list option" where
  "col_loop colorData colorstep graystep w row col grayData =
     (if col < w then
        (case pixel colorData colorstep graystep row col grayData of
           None \<Rightarrow> None
         | Some grayData' \<Rightarrow> col_loop colorData colorstep graystep w row (col + 1) grayData')
      else Some grayData)"
  by pat_completeness auto
termination
  by (relation "measure (\<lambda>(colorData, colorstep, graystep, w, row, col, grayData). w - col)") auto

text \<open>\<^verbatim>\<open>for(row = 0; row < colorimg->height; ++row)\<close>, entered with the current \<open>row\<close>.\<close>

function row_loop ::
  "uchar list \<Rightarrow> nat \<Rightarrow> nat \<Rightarrow> nat \<Rightarrow> nat \<Rightarrow> nat \<Rightarrow> uchar list \<Rightarrow> uchar list option" where
  "row_loop colorData colorstep graystep w h row grayData =
     (if row < h then
        (case col_loop colorData colorstep graystep w row 0 grayData of
           None \<Rightarrow> None
         | Some grayData' \<Rightarrow> row_loop colorData colorstep graystep w h (row + 1) grayData')
      else Some grayData)"
  by pat_completeness auto
termination
  by (relation "measure (\<lambda>(colorData, colorstep, graystep, w, h, row, grayData). h - row)") auto

text \<open>
  Lines 168 to 186: the two steps are the \<open>widthStep\<close> fields divided by
  \<^verbatim>\<open>sizeof(uchar)\<close>, which is 1; the bounds of the loops are the width and the height
  of the colour image. The result is the pixel buffer of \<^verbatim>\<open>mygrayimg\<close> after the loop.
\<close>

definition convert :: "IplImage \<Rightarrow> IplImage \<Rightarrow> uchar list option" where
  "convert colorimg mygrayimg =
     (let colorData = imageData colorimg;
          grayData = imageData mygrayimg;
          colorstep = widthStep colorimg div 1;
          graystep = widthStep mygrayimg div 1
      in row_loop colorData colorstep graystep (width colorimg) (height colorimg) 0 grayData)"

subsection \<open>Descriptors and the contract of the specification\<close>

text \<open>
  Section 3 of the specification: positive width and height, a stride that holds a row,
  and every pixel inside the allocated bytes.
\<close>

definition valid :: "IplImage \<Rightarrow> bool" where
  "valid img \<longleftrightarrow>
     0 < width img \<and> 0 < height img \<and> width img * nChannels img \<le> widthStep img \<and>
     (height img - 1) * widthStep img + width img * nChannels img \<le> length (imageData img)"

definition valid_src :: "IplImage \<Rightarrow> bool" where
  "valid_src S \<longleftrightarrow> valid S \<and> nChannels S = 3"

definition valid_dst :: "IplImage \<Rightarrow> IplImage \<Rightarrow> bool" where
  "valid_dst S D \<longleftrightarrow> valid D \<and> nChannels D = 1 \<and> width D = width S \<and> height D = height S"

text \<open>
  Section 4.2, the effect: the byte the contract asks for at pixel \<open>(r, c)\<close>, read from
  the source at \<open>r * stride + 3 c\<close> (blue), \<open>+ 1\<close> (green) and \<open>+ 2\<close> (red).
\<close>

definition contract_byte :: "IplImage \<Rightarrow> nat \<Rightarrow> nat \<Rightarrow> uchar" where
  "contract_byte S r c =
     gray_contract (imageData S ! (r * widthStep S + c * 3 + 2))
                   (imageData S ! (r * widthStep S + c * 3 + 1))
                   (imageData S ! (r * widthStep S + c * 3))"

text \<open>
  The reference implementation of the contract: the destination buffer with the byte at
  \<open>r * stride + c\<close> replaced for every pixel, and every other byte as it was.
\<close>

definition reference :: "IplImage \<Rightarrow> IplImage \<Rightarrow> uchar list" where
  "reference S D =
     map (\<lambda>p. if p div widthStep D < height S \<and> p mod widthStep D < width S
              then contract_byte S (p div widthStep D) (p mod widthStep D)
              else imageData D ! p)
         [0..<length (imageData D)]"

text \<open>The test pattern of section 8: column \<open>c\<close> holds \<open>(c, 2c mod 256, 3c mod 256)\<close>.\<close>

definition pattern_row :: "nat \<Rightarrow> uchar list" where
  "pattern_row w =
     concat (map (\<lambda>c. [of_nat c, of_nat (2 * c mod 256), of_nat (3 * c mod 256)]) [0..<w])"

definition pattern_img :: "nat \<Rightarrow> nat \<Rightarrow> IplImage" where
  "pattern_img w h =
     \<lparr>nChannels = 3, depth = 8, width = w, height = h, widthStep = 3 * w,
      imageData = concat (replicate h (pattern_row w))\<rparr>"

text \<open>A single-channel image of the given size and content, rows without padding.\<close>

definition gray_img :: "nat \<Rightarrow> nat \<Rightarrow> uchar list \<Rightarrow> IplImage" where
  "gray_img w h bytes =
     \<lparr>nChannels = 1, depth = 8, width = w, height = h, widthStep = w, imageData = bytes\<rparr>"

text \<open>Small images to run the loop on.\<close>

definition two_pixels :: IplImage where
  "two_pixels =
     \<lparr>nChannels = 3, depth = 8, width = 2, height = 1, widthStep = 6,
      imageData = [10, 20, 30, 40, 50, 60]\<rparr>"

definition three_ones :: IplImage where
  "three_ones =
     \<lparr>nChannels = 3, depth = 8, width = 1, height = 1, widthStep = 3,
      imageData = [1, 1, 1]\<rparr>"

definition mid_gray :: IplImage where
  "mid_gray =
     \<lparr>nChannels = 3, depth = 8, width = 1, height = 1, widthStep = 4,
      imageData = [128, 128, 128, 0]\<rparr>"

definition one_pixel :: IplImage where
  "one_pixel =
     \<lparr>nChannels = 3, depth = 8, width = 1, height = 1, widthStep = 4,
      imageData = [10, 20, 30, 0]\<rparr>"

definition padded_rows :: IplImage where
  "padded_rows =
     \<lparr>nChannels = 3, depth = 8, width = 1, height = 2, widthStep = 4,
      imageData = [255, 0, 0, 7, 0, 0, 0, 9]\<rparr>"

definition packed_rows :: IplImage where
  "packed_rows =
     \<lparr>nChannels = 3, depth = 8, width = 1, height = 2, widthStep = 3,
      imageData = [255, 0, 0, 0, 0, 0]\<rparr>"

definition padded_gray :: IplImage where
  "padded_gray =
     \<lparr>nChannels = 1, depth = 8, width = 1, height = 1, widthStep = 4,
      imageData = [0, 170, 170, 170]\<rparr>"

definition black_row :: IplImage where
  "black_row =
     \<lparr>nChannels = 3, depth = 8, width = 2, height = 1, widthStep = 8,
      imageData = [0, 0, 0, 0, 0, 0, 5, 5]\<rparr>"

subsection \<open>The driver\<close>









section \<open>Properties\<close>

subsection \<open>Rounding to double\<close>

text \<open>
  Rounding to the nearest integer is off by at most one half, and keeps the sign.
\<close>

lemma round_even_err: "\<bar>of_int (round_even q) - q\<bar> \<le> 1 / 2"
proof -
  have "of_int \<lfloor>q\<rfloor> \<le> q" and "q < of_int \<lfloor>q\<rfloor> + 1" by linarith+
  then show ?thesis
    unfolding round_even_def Let_def by (simp add: abs_le_iff)
qed

lemma round_even_nonneg: "0 \<le> q \<Longrightarrow> 0 \<le> round_even q"
proof -
  assume "0 \<le> q"
  then have "0 \<le> \<lfloor>q\<rfloor>" by simp
  then show ?thesis unfolding round_even_def Let_def by simp
qed

text \<open>
  \<open>expo\<close> is the binary exponent: for \<open>x \<noteq> 0\<close> it is the only \<open>e\<close> with
  \<open>2\<^sup>e \<le> \<bar>x\<bar> < 2\<^sup>e\<^sup>+\<^sup>1\<close>. The four lemmas before \<open>expo_bounds\<close> treat the two branches of
  its definition.
\<close>

lemma bitlen_pos: "0 < n \<Longrightarrow> 1 \<le> bitlen n"
  by (simp add: bitlen_alt_def)

lemma expo_lower_ge1:
  assumes "1 \<le> (x::real)"
  shows "2 powi (bitlen \<lfloor>x\<rfloor> - 1) \<le> x"
proof -
  have pos: "0 < \<lfloor>x\<rfloor>" using assms by linarith
  from bitlen_bounds [OF pos] have "2 ^ nat (bitlen \<lfloor>x\<rfloor> - 1) \<le> \<lfloor>x\<rfloor>" by simp
  then have "(of_int (2 ^ nat (bitlen \<lfloor>x\<rfloor> - 1)) :: real) \<le> of_int \<lfloor>x\<rfloor>"
    by (simp only: of_int_le_iff)
  also have "\<dots> \<le> x" by simp
  finally have "(2::real) ^ nat (bitlen \<lfloor>x\<rfloor> - 1) \<le> x" by simp
  moreover have "0 \<le> bitlen \<lfloor>x\<rfloor> - 1"
    using bitlen_pos [OF pos] by simp
  ultimately show ?thesis by (simp add: power_int_def)
qed

lemma expo_upper_ge1:
  assumes "1 \<le> (x::real)"
  shows "x < 2 powi (bitlen \<lfloor>x\<rfloor>)"
proof -
  have pos: "0 < \<lfloor>x\<rfloor>" using assms by linarith
  from bitlen_bounds [OF pos] have "\<lfloor>x\<rfloor> + 1 \<le> 2 ^ nat (bitlen \<lfloor>x\<rfloor>)" by simp
  then have a: "(of_int (\<lfloor>x\<rfloor> + 1) :: real) \<le> 2 ^ nat (bitlen \<lfloor>x\<rfloor>)"
    by (simp only: of_int_le_numeral_power_cancel_iff)
  have b: "x < of_int (\<lfloor>x\<rfloor> + 1)" by linarith
  from b a have "x < (2::real) ^ nat (bitlen \<lfloor>x\<rfloor>)" by (rule less_le_trans)
  moreover have "0 \<le> bitlen \<lfloor>x\<rfloor>" by (rule bitlen_nonneg)
  ultimately show ?thesis by (simp add: power_int_def)
qed

lemma powi_neg: "0 \<le> n \<Longrightarrow> (2::real) powi (- n) = 1 / 2 ^ nat n"
  by (simp add: power_int_minus power_int_nonneg_exp divide_inverse)

lemma expo_lower_lt1:
  assumes "0 < (x::real)" "x < 1"
  shows "2 powi (- bitlen (\<lceil>1 / x\<rceil> - 1)) \<le> x"
proof -
  define m where "m = \<lceil>1 / x\<rceil> - 1"
  have "1 < 1 / x" using assms by simp
  then have pos: "0 < m" unfolding m_def by linarith
  from bitlen_bounds [OF pos] have "m + 1 \<le> 2 ^ nat (bitlen m)" by simp
  then have "(of_int (m + 1) :: real) \<le> 2 ^ nat (bitlen m)"
    by (simp only: of_int_le_numeral_power_cancel_iff)
  moreover have "1 / x \<le> of_int (m + 1)" unfolding m_def by linarith
  ultimately have "1 / x \<le> (2::real) ^ nat (bitlen m)" by (rule order_trans [rotated])
  then have "1 \<le> x * 2 ^ nat (bitlen m)"
    using assms(1) by (simp add: field_simps)
  then have "1 / 2 ^ nat (bitlen m) \<le> x"
    by (simp add: field_simps)
  moreover have "0 \<le> bitlen m" by (rule bitlen_nonneg)
  ultimately have "2 powi (- bitlen m) \<le> x"
    by (simp only: powi_neg)
  then show ?thesis by (simp only: m_def)
qed

lemma expo_upper_lt1:
  assumes "0 < (x::real)" "x < 1"
  shows "x < 2 powi (- bitlen (\<lceil>1 / x\<rceil> - 1) + 1)"
proof -
  define m where "m = \<lceil>1 / x\<rceil> - 1"
  have "1 < 1 / x" using assms by simp
  then have pos: "0 < m" unfolding m_def by linarith
  from bitlen_bounds [OF pos] have "2 ^ nat (bitlen m - 1) \<le> m" by simp
  then have "(2::real) ^ nat (bitlen m - 1) \<le> of_int m"
    by (simp only: numeral_power_le_of_int_cancel_iff)
  moreover have "of_int m < 1 / x" unfolding m_def by linarith
  ultimately have "(2::real) ^ nat (bitlen m - 1) < 1 / x" by (rule le_less_trans)
  then have "x * 2 ^ nat (bitlen m - 1) < 1"
    using assms(1) by (simp add: field_simps)
  then have "x < 1 / 2 ^ nat (bitlen m - 1)"
    by (simp add: field_simps)
  moreover have "0 \<le> bitlen m - 1" using bitlen_pos [OF pos] by simp
  moreover have "- bitlen m + 1 = - (bitlen m - 1)" by simp
  ultimately have "x < 2 powi (- bitlen m + 1)"
    by (simp only: powi_neg)
  then show ?thesis by (simp only: m_def)
qed

lemma expo_bounds:
  assumes "x \<noteq> 0"
  shows "2 powi (expo x) \<le> \<bar>x\<bar>" and "\<bar>x\<bar> < 2 powi (expo x + 1)"
proof -
  have pos: "0 < \<bar>x\<bar>" using assms by simp
  show "2 powi (expo x) \<le> \<bar>x\<bar>"
    using expo_lower_ge1 [of "\<bar>x\<bar>"] expo_lower_lt1 [of "\<bar>x\<bar>"] pos
    by (simp add: expo_def)
  show "\<bar>x\<bar> < 2 powi (expo x + 1)"
    using expo_upper_ge1 [of "\<bar>x\<bar>"] expo_upper_lt1 [of "\<bar>x\<bar>"] pos
    by (simp add: expo_def)
qed

lemma powi_less_cancel: "(2::real) powi a < 2 powi b \<Longrightarrow> a < b"
proof (rule ccontr)
  assume less: "(2::real) powi a < 2 powi b" and "\<not> a < b"
  then have "b \<le> a" by simp
  then have "(2::real) powi b \<le> 2 powi a" by (intro power_int_increasing) simp_all
  with less show False by simp
qed

lemma expo_unique:
  assumes "2 powi e \<le> \<bar>x\<bar>" "\<bar>x\<bar> < 2 powi (e + 1)"
  shows "expo x = e"
proof -
  have nz: "x \<noteq> 0"
  proof
    assume "x = 0"
    with assms(1) have "(2::real) powi e \<le> 0" by simp
    moreover have "0 < (2::real) powi e" by simp
    ultimately show False by linarith
  qed
  have "(2::real) powi e < 2 powi (expo x + 1)"
    using assms(1) expo_bounds(2) [OF nz] by linarith
  then have a: "e < expo x + 1" by (rule powi_less_cancel)
  have "(2::real) powi (expo x) < 2 powi (e + 1)"
    using assms(2) expo_bounds(1) [OF nz] by linarith
  then have b: "expo x < e + 1" by (rule powi_less_cancel)
  from a b show ?thesis by simp
qed

text \<open>
  A rounded value is within half a unit in the last place of the exact one; below 512
  that is at most \<open>2\<^sup>-\<^sup>4\<^sup>5\<close>.
\<close>

lemma ulp_pos: "0 < ulp x"
  by (simp add: ulp_def)

lemma round_double_err: "\<bar>round_double x - x\<bar> \<le> ulp x / 2"
proof (cases "x = 0")
  case True
  then show ?thesis using ulp_pos [of x] by (simp add: round_double_def)
next
  case False
  have u: "0 < ulp x" by (rule ulp_pos)
  have "round_double x - x = (of_int (round_even (x / ulp x)) - x / ulp x) * ulp x"
    using False u by (simp add: round_double_def field_simps)
  then have "\<bar>round_double x - x\<bar> = \<bar>of_int (round_even (x / ulp x)) - x / ulp x\<bar> * ulp x"
    using u by (simp add: abs_mult)
  also have "\<dots> \<le> (1 / 2) * ulp x"
    using round_even_err [of "x / ulp x"] u by (intro mult_right_mono) simp_all
  finally show ?thesis by simp
qed

lemma round_double_nonneg: "0 \<le> x \<Longrightarrow> 0 \<le> round_double x"
  using ulp_pos [of x] round_even_nonneg [of "x / ulp x"]
  by (simp add: round_double_def)

lemma round_double_0: "round_double 0 = 0"
  by (simp add: round_double_def)

lemma ulp_small:
  assumes "\<bar>x\<bar> < 512"
  shows "ulp x \<le> 1 / 2 ^ 44"
proof (cases "x = 0")
  case True
  have "expo 0 = 0" by (simp add: expo_def bitlen_eq_zero_iff)
  then have "ulp 0 = 2 powi (- 52)" by (simp add: ulp_def)
  then show ?thesis using True by simp
next
  case False
  have "2 powi (expo x) < (2::real) powi 9"
    using expo_bounds(1) [OF False] assms by simp
  then have "expo x < 9" by (rule powi_less_cancel)
  then have "max (expo x) (- 1022) - 52 \<le> - 44" by simp
  then have "(2::real) powi (max (expo x) (- 1022) - 52) \<le> 2 powi (- 44)"
    by (intro power_int_increasing) simp_all
  then show ?thesis by (simp add: ulp_def)
qed

lemma round_double_close:
  assumes "\<bar>x\<bar> < 512"
  shows "\<bar>round_double x - x\<bar> \<le> 1 / 2 ^ 45"
  using round_double_err [of x] ulp_small [OF assms] by simp

text \<open>
  Evaluation: once the exponent of \<open>x\<close> is known, \<open>round_double x\<close> is arithmetic on
  numerals. The three literals of line 181 come out as the binary64 values
  \<^verbatim>\<open>0x1.322d0e5604189p-2\<close>, \<^verbatim>\<open>0x1.2c8b439581062p-1\<close> and \<^verbatim>\<open>0x1.d2f1a9fbe76c9p-4\<close>.
\<close>

lemma round_double_at:
  assumes "2 powi e \<le> \<bar>x\<bar>" "\<bar>x\<bar> < 2 powi (e + 1)" "- 1022 \<le> e"
  shows "round_double x = of_int (round_even (x / 2 powi (e - 52))) * 2 powi (e - 52)"
proof -
  have "0 < (2::real) powi e" by simp
  with assms(1) have "0 < \<bar>x\<bar>" by linarith
  then have "x \<noteq> 0" by simp
  moreover have "ulp x = 2 powi (e - 52)"
    using expo_unique [OF assms(1,2)] assms(3) by (simp add: ulp_def)
  ultimately show ?thesis by (simp add: round_double_def)
qed

lemma c299: "round_double (299 / 1000) = 5386305154335113 / 18014398509481984"
  by (simp add: round_double_at [where e = "-2"] round_even_def Let_def)

lemma c587: "round_double (587 / 1000) = 2643612981266481 / 4503599627370496"
  by (simp add: round_double_at [where e = "-1"] round_even_def Let_def)

lemma c114: "round_double (114 / 1000) = 8214565720323785 / 72057594037927936"
  by (simp add: round_double_at [where e = "-4"] round_even_def Let_def)

lemmas round_double_eval =
  round_double_at [where e = "-4"] round_double_at [where e = "-3"]
  round_double_at [where e = "-2"] round_double_at [where e = "-1"]
  round_double_at [where e = "0"] round_double_at [where e = "1"]
  round_double_at [where e = "2"] round_double_at [where e = "3"]
  round_double_at [where e = "4"] round_double_at [where e = "5"]
  round_double_at [where e = "6"] round_double_at [where e = "7"]
  round_even_def Let_def

lemmas gray_eval = gray_of_def gray_double_def dmul_def dadd_def double_of_uchar_def
    uchar_of_double_def trunc_def

text \<open>
  The gray values of the pixels used below. The three literals add up to
  \<open>1 - 3 / 2\<^sup>5\<^sup>6\<close>, not to 1, and the rounded sum is the double just below 1, printed as
  \<^verbatim>\<open>0.9999999999999999\<close>. So a pixel with three equal bytes can come out one below that
  byte: \<open>(1, 1, 1)\<close> gives 0, and the mid-gray \<open>(128, 128, 128)\<close> gives
  \<^verbatim>\<open>127.99999999999999\<close>, stored as 127.
\<close>

lemma gray_of_0: "gray_of 0 0 0 = 0"
  by (simp add: gray_of_def gray_double_def dmul_def dadd_def double_of_uchar_def
      round_double_def uchar_of_double_def trunc_def)

lemma gray_double_111: "gray_double 1 1 1 = 1 - 1 / 2 ^ 53"
  unfolding gray_double_def dmul_def dadd_def double_of_uchar_def
  by (simp add: round_double_eval)

lemma gray_double_128: "gray_double 128 128 128 = 128 - 1 / 2 ^ 46"
  unfolding gray_double_def dmul_def dadd_def double_of_uchar_def
  by (simp add: round_double_eval)

lemma gray_111: "gray_of 1 1 1 = 0"
  unfolding gray_of_def gray_double_def dmul_def dadd_def double_of_uchar_def
    uchar_of_double_def trunc_def
  by (simp add: round_double_eval)

lemma gray_128: "gray_of 128 128 128 = 127"
  unfolding gray_of_def gray_double_def dmul_def dadd_def double_of_uchar_def
    uchar_of_double_def trunc_def
  by (simp add: round_double_eval)

lemma gray_30_20_10: "gray_of 30 20 10 = 21"
  unfolding gray_eval by (simp add: round_double_eval round_double_0)

lemma gray_40_30_20: "gray_of 40 30 20 = 31"
  unfolding gray_eval by (simp add: round_double_eval round_double_0)

lemma gray_60_50_40: "gray_of 60 50 40 = 51"
  unfolding gray_eval by (simp add: round_double_eval round_double_0)

lemma gray_1_0_0: "gray_of 1 0 0 = 0"
  unfolding gray_eval by (simp add: round_double_eval round_double_0)

subsection \<open>The double evaluation against the exact luminance\<close>

text \<open>
  Five roundings and three rounded literals: the double value of line 181 differs from
  the exact luminance by less than \<open>2\<^sup>-\<^sup>3\<^sup>5\<close>.
\<close>

lemma abs_tri: "\<bar>a - b\<bar> \<le> x \<Longrightarrow> \<bar>d - a\<bar> \<le> y \<Longrightarrow> \<bar>d - (b::real)\<bar> \<le> x + y"
  by linarith

lemma dmul_close:
  assumes "0 \<le> c" "c \<le> 1" "0 \<le> r" "r \<le> 255"
  shows "\<bar>dmul (round_double c) r - c * r\<bar> \<le> 256 / 2 ^ 45"
    and "0 \<le> dmul (round_double c) r"
proof -
  define k where "k = round_double c"
  have kc: "\<bar>k - c\<bar> \<le> 1 / 2 ^ 45"
    unfolding k_def using assms(1,2) by (intro round_double_close) simp
  have k0: "0 \<le> k" unfolding k_def using assms(1) by (rule round_double_nonneg)
  have "\<bar>k * r - c * r\<bar> = \<bar>k - c\<bar> * r"
    using assms(3) by (simp add: abs_mult flip: left_diff_distrib)
  also have "\<dots> \<le> (1 / 2 ^ 45) * 255"
    using kc assms(3,4) by (intro mult_mono) simp_all
  finally have d1: "\<bar>k * r - c * r\<bar> \<le> 255 / 2 ^ 45" by simp
  have "c * r \<le> 1 * 255" using assms by (intro mult_mono) simp_all
  moreover have "0 \<le> c * r" using assms by simp
  moreover have "255 / 2 ^ 45 < (1::real)" by simp
  ultimately have "\<bar>k * r\<bar> < 512" using d1 by linarith
  then have d2: "\<bar>round_double (k * r) - k * r\<bar> \<le> 1 / 2 ^ 45"
    by (rule round_double_close)
  from abs_tri [OF d1 d2] show "\<bar>dmul (round_double c) r - c * r\<bar> \<le> 256 / 2 ^ 45"
    unfolding dmul_def k_def [symmetric] by simp
  have "0 \<le> k * r" using k0 assms(3) by simp
  then show "0 \<le> dmul (round_double c) r"
    unfolding dmul_def k_def [symmetric] by (rule round_double_nonneg)
qed

lemma uchar_real_range: "0 \<le> double_of_uchar v" "double_of_uchar v \<le> 255"
proof -
  show "0 \<le> double_of_uchar v" unfolding double_of_uchar_def by (rule of_nat_0_le_iff)
  have "unat v < 2 ^ 8" using unsigned_less [of v, where 'a = nat] by simp
  then have "unat v \<le> 255" by simp
  then have "(of_nat (unat v) :: real) \<le> of_nat 255" by (simp only: of_nat_le_iff)
  then show "double_of_uchar v \<le> 255" unfolding double_of_uchar_def by (simp only: of_nat_numeral)
qed

lemma Y_real_lum1000: "Y_real red green blue = of_nat (lum1000 red green blue) / 1000"
  by (simp add: Y_real_def lum1000_def)

lemma gray_double_close:
  "\<bar>gray_double red green blue - Y_real red green blue\<bar> \<le> 1 / 2 ^ 35"
  and gray_double_nonneg: "0 \<le> gray_double red green blue"
proof -
  define R where "R = double_of_uchar red"
  define G where "G = double_of_uchar green"
  define B where "B = double_of_uchar blue"
  define p1 where "p1 = dmul (round_double (299 / 1000)) R"
  define p2 where "p2 = dmul (round_double (587 / 1000)) G"
  define p3 where "p3 = dmul (round_double (114 / 1000)) B"
  have R: "0 \<le> R" "R \<le> 255" and G: "0 \<le> G" "G \<le> 255" and B: "0 \<le> B" "B \<le> 255"
    unfolding R_def G_def B_def by (rule uchar_real_range)+
  have e1: "\<bar>p1 - 299 / 1000 * R\<bar> \<le> 256 / 2 ^ 45" and n1: "0 \<le> p1"
    unfolding p1_def using R by (intro dmul_close; simp)+
  have e2: "\<bar>p2 - 587 / 1000 * G\<bar> \<le> 256 / 2 ^ 45" and n2: "0 \<le> p2"
    unfolding p2_def using G by (intro dmul_close; simp)+
  have e3: "\<bar>p3 - 114 / 1000 * B\<bar> \<le> 256 / 2 ^ 45" and n3: "0 \<le> p3"
    unfolding p3_def using B by (intro dmul_close; simp)+
  have small: "256 / 2 ^ 45 < (1::real)" by simp
  have "\<bar>p1 + p2\<bar> < 512" using e1 e2 n1 n2 R G small by linarith
  then have e4: "\<bar>dadd p1 p2 - (p1 + p2)\<bar> \<le> 1 / 2 ^ 45"
    unfolding dadd_def by (rule round_double_close)
  have n4: "0 \<le> dadd p1 p2"
    unfolding dadd_def using n1 n2 by (intro round_double_nonneg) simp
  have "\<bar>dadd p1 p2 + p3\<bar> < 512" using e1 e2 e3 e4 n3 n4 R G B small by linarith
  then have e5: "\<bar>dadd (dadd p1 p2) p3 - (dadd p1 p2 + p3)\<bar> \<le> 1 / 2 ^ 45"
    unfolding dadd_def by (rule round_double_close)
  have g: "gray_double red green blue = dadd (dadd p1 p2) p3"
    by (simp add: gray_double_def p1_def p2_def p3_def R_def G_def B_def)
  have y: "Y_real red green blue = 299 / 1000 * R + 587 / 1000 * G + 114 / 1000 * B"
    by (simp add: Y_real_def R_def G_def B_def double_of_uchar_def)
  have "\<bar>dadd (dadd p1 p2) p3 - (299 / 1000 * R + 587 / 1000 * G + 114 / 1000 * B)\<bar>
      \<le> 3 * (256 / 2 ^ 45) + 2 * (1 / 2 ^ 45)"
    using e1 e2 e3 e4 e5 by linarith
  also have "\<dots> \<le> (1::real) / 2 ^ 35" by simp
  finally show "\<bar>gray_double red green blue - Y_real red green blue\<bar> \<le> 1 / 2 ^ 35"
    by (simp only: g y)
  have "0 \<le> dadd p1 p2 + p3" using n4 n3 by simp
  then have "0 \<le> round_double (dadd p1 p2 + p3)" by (rule round_double_nonneg)
  then show "0 \<le> gray_double red green blue" by (simp only: g dadd_def [of "dadd p1 p2" p3])
qed

text \<open>
  The exact luminance is a multiple of \<open>1 / 1000\<close>. Unless it is an integer, the
  error above cannot carry the double value across an integer, and the stored byte is the
  truncation of the exact value; when it is an integer, the stored byte is that integer or
  one less. The double value stays inside the range of a byte, so the conversion of line
  181 is defined.
\<close>

lemma unat_word_of_int_8:
  "0 \<le> f \<Longrightarrow> f < 256 \<Longrightarrow> unat (word_of_int f :: uchar) = nat f"
  by (simp add: unat_eq_nat_uint uint_word_of_int)

lemma lum1000_le: "lum1000 red green blue \<le> 255000"
proof -
  have "unat red \<le> 255" "unat green \<le> 255" "unat blue \<le> 255"
    using unsigned_less [of red, where 'a = nat] unsigned_less [of green, where 'a = nat]
      unsigned_less [of blue, where 'a = nat] by simp_all
  then show ?thesis unfolding lum1000_def by linarith
qed

lemma div_mod_1000: "(of_nat n :: real) / 1000 = of_nat (n div 1000) + of_nat (n mod 1000) / 1000"
proof -
  have "(of_nat n :: real) = of_nat (n div 1000 * 1000 + n mod 1000)"
    by (simp only: div_mult_mod_eq)
  also have "\<dots> = of_nat (n div 1000) * 1000 + of_nat (n mod 1000)"
    by (simp only: of_nat_add of_nat_mult of_nat_numeral)
  finally have e: "(of_nat n :: real) = of_nat (n div 1000) * 1000 + of_nat (n mod 1000)" .
  show ?thesis by (subst e) (simp add: add_divide_distrib)
qed

lemma gray_contract_eq:
  "unat (gray_contract red green blue) = lum1000 red green blue div 1000"
proof -
  define n where "n = lum1000 red green blue"
  have y: "Y_real red green blue = of_nat n / of_nat 1000"
    by (simp add: n_def Y_real_lum1000)
  have "\<lfloor>Y_real red green blue\<rfloor> = int (n div 1000)"
    unfolding y by (rule floor_divide_of_nat_eq)
  moreover have "0 \<le> Y_real red green blue" unfolding y by simp
  ultimately have t: "trunc (Y_real red green blue) = int (n div 1000)"
    by (simp add: trunc_def)
  have "n div 1000 \<le> 255" using lum1000_le [of red green blue] by (simp add: n_def)
  then have "unat (word_of_int (int (n div 1000)) :: uchar) = nat (int (n div 1000))"
    by (intro unat_word_of_int_8) simp_all
  then show ?thesis
    unfolding gray_contract_def t n_def [symmetric] by (simp only: nat_int)
qed

lemma gray_of_floor:
  "unat (gray_of red green blue) = nat \<lfloor>gray_double red green blue\<rfloor>"
  and gray_of_upper: "unat (gray_of red green blue) \<le> lum1000 red green blue div 1000"
  and gray_of_lower: "lum1000 red green blue div 1000 \<le> unat (gray_of red green blue) + 1"
  and gray_of_exact: "\<not> 1000 dvd lum1000 red green blue \<Longrightarrow>
         unat (gray_of red green blue) = lum1000 red green blue div 1000"
  and gray_double_range: "0 \<le> trunc (gray_double red green blue)"
         "trunc (gray_double red green blue) < 256"
proof -
  define n where "n = lum1000 red green blue"
  define q where "q = n div 1000"
  define m where "m = n mod 1000"
  define v where "v = gray_double red green blue"
  have Y: "Y_real red green blue = of_nat q + of_nat m / 1000"
    unfolding Y_real_lum1000 q_def m_def n_def by (rule div_mod_1000)
  have close: "\<bar>v - (of_nat q + of_nat m / 1000)\<bar> \<le> 1 / 2 ^ 35"
    unfolding v_def Y [symmetric] by (rule gray_double_close)
  have v0: "0 \<le> v" unfolding v_def by (rule gray_double_nonneg)
  have "m < 1000" by (simp add: m_def)
  then have "m \<le> 999" by simp
  then have "(of_nat m :: real) \<le> of_nat 999" by (simp only: of_nat_le_iff)
  then have m999: "(of_nat m :: real) \<le> 999" by simp
  have m0: "(0::real) \<le> of_nat m" by simp
  have tiny: "(1::real) / 2 ^ 35 < 1 / 1000" by simp
  have q255: "q \<le> 255" using lum1000_le [of red green blue] by (simp add: q_def n_def)
  have "v < of_nat q + 1" using close m999 tiny by linarith
  then have "v < of_int (int q + 1)" by simp
  then have up: "\<lfloor>v\<rfloor> < int q + 1" by (simp only: floor_less_iff)
  have "of_nat q - 1 \<le> v" using close m0 tiny by linarith
  then have "of_int (int q - 1) \<le> v" by simp
  then have lo: "int q - 1 \<le> \<lfloor>v\<rfloor>" by (simp only: le_floor_iff)
  have f0: "0 \<le> \<lfloor>v\<rfloor>" using v0 by simp
  have f256: "\<lfloor>v\<rfloor> < 256" using up q255 by linarith
  have tr: "trunc v = \<lfloor>v\<rfloor>" using v0 by (simp add: trunc_def)
  have u: "unat (gray_of red green blue) = nat \<lfloor>v\<rfloor>"
    unfolding gray_of_def uchar_of_double_def v_def [symmetric] tr
    using f0 f256 by (rule unat_word_of_int_8)
  show "unat (gray_of red green blue) = nat \<lfloor>gray_double red green blue\<rfloor>"
    using u by (simp only: v_def)
  show "0 \<le> trunc (gray_double red green blue)" "trunc (gray_double red green blue) < 256"
    using f0 f256 by (simp_all only: tr v_def [symmetric])
  show "unat (gray_of red green blue) \<le> lum1000 red green blue div 1000"
    unfolding u q_def [symmetric, unfolded n_def] using up f0 by linarith
  show "lum1000 red green blue div 1000 \<le> unat (gray_of red green blue) + 1"
    unfolding u q_def [symmetric, unfolded n_def] using lo f0 by linarith
  show "unat (gray_of red green blue) = lum1000 red green blue div 1000"
    if "\<not> 1000 dvd lum1000 red green blue"
  proof -
    from that have "m \<noteq> 0" by (simp add: m_def n_def dvd_eq_mod_eq_0)
    then have "1 \<le> m" by simp
    then have "(of_nat 1 :: real) \<le> of_nat m" by (simp only: of_nat_le_iff)
    then have "(1::real) \<le> of_nat m" by simp
    then have "of_nat q \<le> v" using close tiny by linarith
    then have "of_int (int q) \<le> v" by simp
    then have "int q \<le> \<lfloor>v\<rfloor>" by (simp only: le_floor_iff)
    then show ?thesis
      unfolding u q_def [symmetric, unfolded n_def] using up by linarith
  qed
qed

lemma unat_min: "unat (min a b) = min (unat a) (unat b)" for a b :: uchar
  by (simp add: min_def word_le_nat_alt)

lemma unat_max: "unat (max a b) = max (unat a) (unat b)" for a b :: uchar
  by (simp add: max_def word_le_nat_alt)

lemma gray_of_min_unequal:
  assumes "\<not> (blue = green \<and> green = red)"
  shows "min blue (min green red) \<le> gray_of red green blue"
proof -
  define m where "m = min (unat blue) (min (unat green) (unat red))"
  have le: "m \<le> unat blue" "m \<le> unat green" "m \<le> unat red" by (simp_all add: m_def)
  have "\<not> (unat blue = unat green \<and> unat green = unat red)"
    using assms by (simp add: word_unat_eq_iff)
  then have "m < unat blue \<or> m < unat green \<or> m < unat red"
    unfolding m_def by linarith
  then have big: "1000 * m + 114 \<le> lum1000 red green blue"
    using le unfolding lum1000_def by linarith
  have "m \<le> unat (gray_of red green blue)"
  proof (cases "1000 dvd lum1000 red green blue")
    case True
    then obtain k where k: "lum1000 red green blue = 1000 * k" by (rule dvdE)
    with big have "m + 1 \<le> k" by linarith
    moreover have "lum1000 red green blue div 1000 = k" using k by simp
    ultimately show ?thesis using gray_of_lower [of red green blue] by linarith
  next
    case False
    have "1000 * m \<le> lum1000 red green blue" using big by linarith
    then have "m \<le> lum1000 red green blue div 1000" by simp
    then show ?thesis using gray_of_exact [OF False] by linarith
  qed
  then have "unat (min blue (min green red)) \<le> unat (gray_of red green blue)"
    by (simp only: unat_min m_def)
  then show ?thesis by (simp only: word_le_nat_alt)
qed

lemma gray_of_min_max:
  "unat (min blue (min green red)) \<le> unat (gray_of red green blue) + 1"
  "gray_of red green blue \<le> max blue (max green red)"
proof -
  define m where "m = min (unat blue) (min (unat green) (unat red))"
  define M where "M = max (unat blue) (max (unat green) (unat red))"
  have "m \<le> unat blue" "m \<le> unat green" "m \<le> unat red" by (simp_all add: m_def)
  then have "1000 * m \<le> lum1000 red green blue" unfolding lum1000_def by linarith
  then have "m \<le> lum1000 red green blue div 1000" by simp
  then have "m \<le> unat (gray_of red green blue) + 1"
    using gray_of_lower [of red green blue] by linarith
  then show "unat (min blue (min green red)) \<le> unat (gray_of red green blue) + 1"
    by (simp only: unat_min m_def)
  have "unat blue \<le> M" "unat green \<le> M" "unat red \<le> M" by (simp_all add: M_def)
  then have "lum1000 red green blue \<le> 1000 * M" unfolding lum1000_def by linarith
  then have "lum1000 red green blue div 1000 \<le> M" by simp
  then have "unat (gray_of red green blue) \<le> M"
    using gray_of_upper [of red green blue] by linarith
  then have "unat (gray_of red green blue) \<le> unat (max blue (max green red))"
    by (simp only: unat_max M_def)
  then show "gray_of red green blue \<le> max blue (max green red)"
    by (simp only: word_le_nat_alt)
qed

subsection \<open>What the loop computes\<close>

text \<open>
  The loops are unfolded by hand, not by the simplifier.
\<close>

declare col_loop.simps [simp del] row_loop.simps [simp del]

text \<open>
  One pass of the body whose accesses are inside the buffers, one row, and all rows:
  every visited position holds \<open>loop_byte\<close>, every other byte of the gray buffer is
  as before.
\<close>

lemma pixel_Some:
  assumes "red_index cs row col < length cd" "gray_index gs row col < length g"
  shows "pixel cd cs gs row col g = Some (g[gray_index gs row col := loop_byte cd cs row col])"
proof -
  have "blue_index cs row col < length cd" "green_index cs row col < length cd"
    using assms(1) by (simp_all add: red_index_def green_index_def blue_index_def)
  then show ?thesis
    using assms by (simp add: pixel_def read_at_def write_at_def loop_byte_def)
qed

lemma col_loop_char:
  assumes "row * cs + w + 2 \<le> length cd" "row * gs + w \<le> length g"
  shows "\<exists>g'. col_loop cd cs gs w row col g = Some g' \<and> length g' = length g \<and>
           (\<forall>p. g' ! p = (if row * gs + col \<le> p \<and> p < row * gs + w
                          then loop_byte cd cs row (p - row * gs) else g ! p))"
  using assms
proof (induction "w - col" arbitrary: col g)
  case 0
  then have "\<not> col < w" by simp
  then show ?case by (auto simp add: col_loop.simps)
next
  case (Suc n)
  then have lt: "col < w" by simp
  let ?i = "gray_index gs row col"
  let ?g1 = "g[?i := loop_byte cd cs row col]"
  have i: "?i < length g" using lt Suc.prems(2) by (simp add: gray_index_def)
  have "red_index cs row col < length cd" using lt Suc.prems(1) by (simp add: red_index_def)
  then have px: "pixel cd cs gs row col g = Some ?g1" using i by (rule pixel_Some)
  have "n = w - (col + 1)" using Suc.hyps(2) by simp
  moreover have "row * gs + w \<le> length ?g1" using Suc.prems(2) by simp
  ultimately obtain g' where
    g': "col_loop cd cs gs w row (col + 1) ?g1 = Some g'" "length g' = length ?g1"
      "\<forall>p. g' ! p = (if row * gs + (col + 1) \<le> p \<and> p < row * gs + w
                          then loop_byte cd cs row (p - row * gs) else ?g1 ! p)"
    using Suc.hyps(1) [of "col + 1" ?g1] Suc.prems(1) by blast
  have "col_loop cd cs gs w row col g = Some g'"
    using lt px g'(1) by (subst col_loop.simps) simp
  moreover have "length g' = length g" using g'(2) by simp
  moreover have "g' ! p = (if row * gs + col \<le> p \<and> p < row * gs + w
                          then loop_byte cd cs row (p - row * gs) else g ! p)" for p
  proof (cases "p = ?i")
    case True
    then show ?thesis using g'(3) i lt by (simp add: gray_index_def)
  next
    case False
    then show ?thesis using g'(3) by (auto simp: gray_index_def)
  qed
  ultimately show ?case by blast
qed

lemma row_loop_char:
  assumes "w \<le> gs" "\<forall>r<h. r * cs + w + 2 \<le> length cd" "\<forall>r<h. r * gs + w \<le> length g"
  shows "\<exists>g'. row_loop cd cs gs w h row g = Some g' \<and> length g' = length g \<and>
           (\<forall>r c. row \<le> r \<and> r < h \<and> c < w \<longrightarrow> g' ! (r * gs + c) = loop_byte cd cs r c) \<and>
           (\<forall>p. (\<forall>r c. row \<le> r \<and> r < h \<and> c < w \<longrightarrow> p \<noteq> r * gs + c) \<longrightarrow> g' ! p = g ! p)"
  using assms
proof (induction "h - row" arbitrary: row g)
  case 0
  then have "\<not> row < h" by simp
  then show ?case by (auto simp add: row_loop.simps)
next
  case (Suc n)
  then have lt: "row < h" by simp
  from col_loop_char [of row cs w cd gs g 0] Suc.prems(2,3) lt
  obtain g1 where
    g1: "col_loop cd cs gs w row 0 g = Some g1" "length g1 = length g"
      "\<forall>p. g1 ! p = (if row * gs + 0 \<le> p \<and> p < row * gs + w
                          then loop_byte cd cs row (p - row * gs) else g ! p)"
    by blast
  have "n = h - (row + 1)" using Suc.hyps(2) by simp
  moreover have "\<forall>r<h. r * gs + w \<le> length g1" using Suc.prems(3) g1(2) by simp
  ultimately obtain g' where
    g': "row_loop cd cs gs w h (row + 1) g1 = Some g'" "length g' = length g1"
      "\<forall>r c. row + 1 \<le> r \<and> r < h \<and> c < w \<longrightarrow> g' ! (r * gs + c) = loop_byte cd cs r c"
      "\<forall>p. (\<forall>r c. row + 1 \<le> r \<and> r < h \<and> c < w \<longrightarrow> p \<noteq> r * gs + c) \<longrightarrow> g' ! p = g1 ! p"
    using Suc.hyps(1) [of "row + 1" g1] Suc.prems(1,2) by blast
  have later: "row * gs + c \<noteq> r * gs + c'" if "row + 1 \<le> r" "c < w" for r c c'
  proof -
    have "(row + 1) * gs \<le> r * gs" using that(1) by (rule mult_le_mono1)
    then show ?thesis using that(2) Suc.prems(1) by simp
  qed
  have "row_loop cd cs gs w h row g = Some g'"
    using lt g1(1) g'(1) by (subst row_loop.simps) simp
  moreover have "length g' = length g" using g'(2) g1(2) by simp
  moreover have "g' ! (r * gs + c) = loop_byte cd cs r c" if "row \<le> r" "r < h" "c < w" for r c
  proof (cases "r = row")
    case True
    have "g' ! (row * gs + c) = g1 ! (row * gs + c)"
      using g'(4) later [of _ c] that(3) by blast
    then show ?thesis using g1(3) that(3) True by simp
  next
    case False
    then show ?thesis using g'(3) that by simp
  qed
  moreover have "g' ! p = g ! p"
    if "\<forall>r c. row \<le> r \<and> r < h \<and> c < w \<longrightarrow> p \<noteq> r * gs + c" for p
  proof -
    have "g' ! p = g1 ! p" using g'(4) that by simp
    moreover have "\<not> (row * gs + 0 \<le> p \<and> p < row * gs + w)"
    proof
      assume a: "row * gs + 0 \<le> p \<and> p < row * gs + w"
      then have "p = row * gs + (p - row * gs)" "p - row * gs < w" by arith+
      then show False using that lt by (metis order_refl)
    qed
    ultimately show ?thesis using g1(3) by auto
  qed
  ultimately show ?case by blast
qed

text \<open>
  On valid descriptors every access of the loop is inside its buffer, so the loop
  returns, and its result is known byte for byte.
\<close>

lemma index_assoc:
  "blue_index cs r c = r * cs + c"
  "green_index cs r c = r * cs + (c + 1)"
  "red_index cs r c = r * cs + (c + 2)"
  by (simp_all add: blue_index_def green_index_def red_index_def)

lemma valid_src_rows:
  assumes "valid_src S" "r < height S"
  shows "r * widthStep S + 3 * width S \<le> length (imageData S)" and "0 < width S"
    and "3 * width S \<le> widthStep S"
proof -
  from assms(1) have v: "0 < width S" "0 < height S" "width S * 3 \<le> widthStep S"
    "(height S - 1) * widthStep S + width S * 3 \<le> length (imageData S)"
    by (auto simp add: valid_src_def valid_def)
  have "r \<le> height S - 1" using assms(2) by simp
  then have "r * widthStep S \<le> (height S - 1) * widthStep S" by (rule mult_le_mono1)
  then show "r * widthStep S + 3 * width S \<le> length (imageData S)" using v(4) by linarith
  show "0 < width S" by (rule v(1))
  show "3 * width S \<le> widthStep S" using v(3) by simp
qed

lemma valid_dst_rows:
  assumes "valid_dst S D" "r < height S"
  shows "r * widthStep D + width S \<le> length (imageData D)" and "width S \<le> widthStep D"
proof -
  from assms(1) have v: "0 < height D" "width D \<le> widthStep D"
    "(height D - 1) * widthStep D + width D \<le> length (imageData D)"
    "width D = width S" "height D = height S"
    by (auto simp add: valid_dst_def valid_def)
  have "r \<le> height D - 1" using assms(2) v(5) by simp
  then have "r * widthStep D \<le> (height D - 1) * widthStep D" by (rule mult_le_mono1)
  then show "r * widthStep D + width S \<le> length (imageData D)" using v(3,4) by linarith
  show "width S \<le> widthStep D" using v(2,4) by simp
qed

lemma convert_char:
  assumes "valid_src S" "valid_dst S D"
  shows "\<exists>g'. convert S D = Some g' \<and> length g' = length (imageData D) \<and>
     (\<forall>r c. r < height S \<and> c < width S \<longrightarrow>
        g' ! (r * widthStep D + c) = loop_byte (imageData S) (widthStep S) r c) \<and>
     (\<forall>p. (\<forall>r c. r < height S \<and> c < width S \<longrightarrow> p \<noteq> r * widthStep D + c) \<longrightarrow>
        g' ! p = imageData D ! p)"
proof -
  have a: "\<forall>r<height S. r * widthStep S + width S + 2 \<le> length (imageData S)"
  proof (intro allI impI)
    fix r assume "r < height S"
    from valid_src_rows [OF assms(1) this] show "r * widthStep S + width S + 2 \<le> length (imageData S)"
      by linarith
  qed
  have b: "\<forall>r<height S. r * widthStep D + width S \<le> length (imageData D)"
    using valid_dst_rows(1) [OF assms(2)] by blast
  have c: "width S \<le> widthStep D"
  proof -
    from assms(1) have "0 < height S" by (simp add: valid_src_def valid_def)
    from valid_dst_rows(2) [OF assms(2) this] show ?thesis .
  qed
  from row_loop_char [OF c a b, of 0] obtain g' where
    g: "row_loop (imageData S) (widthStep S) (widthStep D) (width S) (height S) 0 (imageData D)
          = Some g'"
      "length g' = length (imageData D)"
      "\<forall>r c. 0 \<le> r \<and> r < height S \<and> c < width S \<longrightarrow>
         g' ! (r * widthStep D + c) = loop_byte (imageData S) (widthStep S) r c"
      "\<forall>p. (\<forall>r c. 0 \<le> r \<and> r < height S \<and> c < width S \<longrightarrow> p \<noteq> r * widthStep D + c) \<longrightarrow>
         g' ! p = imageData D ! p"
    by blast
  have "convert S D = Some g'" using g(1) by (simp add: convert_def)
  moreover have "\<forall>r c. r < height S \<and> c < width S \<longrightarrow>
        g' ! (r * widthStep D + c) = loop_byte (imageData S) (widthStep S) r c"
    using g(3) by simp
  moreover have "\<forall>p. (\<forall>r c. r < height S \<and> c < width S \<longrightarrow> p \<noteq> r * widthStep D + c) \<longrightarrow>
        g' ! p = imageData D ! p"
    using g(4) by simp
  ultimately show ?thesis using g(2) by (intro exI [of _ g']) simp
qed

lemma reference_nth:
  assumes "valid_dst S D" "r < height S" "c < width S"
  shows "reference S D ! (r * widthStep D + c) = contract_byte S r c"
proof -
  have len: "r * widthStep D + c < length (imageData D)"
    using valid_dst_rows(1) [OF assms(1,2)] assms(3) by linarith
  have ws: "c < widthStep D" using valid_dst_rows(2) [OF assms(1,2)] assms(3) by linarith
  then have "(r * widthStep D + c) div widthStep D = r" "(r * widthStep D + c) mod widthStep D = c"
    by simp_all
  then show ?thesis using len assms(2,3) by (simp add: reference_def)
qed

text \<open>
  Rules to run the loop, the reference and the descriptor checks on the small images.
\<close>

lemmas loop_eval = convert_def row_loop.simps col_loop.simps pixel_def read_at_def write_at_def
  blue_index_def green_index_def red_index_def gray_index_def

lemmas image_eval = gray_img_def two_pixels_def three_ones_def mid_gray_def one_pixel_def
  padded_rows_def
  packed_rows_def black_row_def padded_gray_def pattern_img_def pattern_row_def

lemmas reference_eval = reference_def contract_byte_def gray_contract_def Y_real_def trunc_def upt_rec

lemmas valid_eval = valid_src_def valid_dst_def valid_def

lemma all_less_1: "(\<forall>r<(1::nat). P r) \<longleftrightarrow> P 0"
  by simp

lemma all_less_2: "(\<forall>r<(2::nat). P r) \<longleftrightarrow> P 0 \<and> P 1"
proof -
  have "r < 2 \<longleftrightarrow> r = 0 \<or> r = 1" for r :: nat
    by arith
  then show ?thesis by auto
qed

lemma all_less_3: "(\<forall>r<(3::nat). P r) \<longleftrightarrow> P 0 \<and> P 1 \<and> P 2"
proof -
  have "r < 3 \<longleftrightarrow> r = 0 \<or> r = 1 \<or> r = 2" for r :: nat
    by arith
  then show ?thesis by auto
qed

lemma all_less_6: "(\<forall>r<(6::nat). P r) \<longleftrightarrow> P 0 \<and> P 1 \<and> P 2 \<and> P 3 \<and> P 4 \<and> P 5"
proof -
  have "r < 6 \<longleftrightarrow> r = 0 \<or> r = 1 \<or> r = 2 \<or> r = 3 \<or> r = 4 \<or> r = 5" for r :: nat
    by arith
  then show ?thesis by auto
qed



section \<open>The claims\<close>

text \<open>
  C1. For every pixel \<open>(r, c)\<close> the kernel is to read blue, green and red at the offsets
  \<open>r * stride + 3 c\<close>, \<open>+ 1\<close>, \<open>+ 2\<close> of the source and to store the truncated luminance at
  \<open>r * stride + c\<close> of the destination. The loop does not: its subscripts are
  \<open>r * stride + c\<close>, \<open>+ 1\<close>, \<open>+ 2\<close>, although the comment before the call of
  \<^verbatim>\<open>cvCvtColor\<close> describes three bytes per pixel. On the image \<open>two_pixels\<close> the second
  pixel is read at the offsets 1, 2, 3 and 31 is stored; the bytes at 3, 4, 5 give 51,
  which is also what the contract asks for.
\<close>

theorem second_pixel_misread:
  "blue_index (widthStep two_pixels) 0 1 = 1 \<and>
   green_index (widthStep two_pixels) 0 1 = 2 \<and>
   red_index (widthStep two_pixels) 0 1 = 3 \<and>
   convert two_pixels (gray_img 2 1 [0, 0]) = Some [21, 31] \<and>
   gray_of (imageData two_pixels ! (0 * widthStep two_pixels + 1 * 3 + 2))
           (imageData two_pixels ! (0 * widthStep two_pixels + 1 * 3 + 1))
           (imageData two_pixels ! (0 * widthStep two_pixels + 1 * 3)) = 51 \<and>
   reference two_pixels (gray_img 2 1 [0, 0]) = [21, 51]"
  by (simp add: loop_eval image_eval reference_eval gray_30_20_10 gray_40_30_20 gray_60_50_40)

text \<open>
  C2. For the widths 1, 2, 15, 16, 17 and 640 the kernel is to agree with a reference
  implementation of the contract on the pattern \<open>(c, 2c mod 256, 3c mod 256)\<close>. For the
  width 2 it does not, by the subscripts of C1: the loop stores \<open>[0, 0]\<close>, the reference
  gives \<open>[0, 2]\<close>.
\<close>

theorem pattern_width_2_differs:
  "convert (pattern_img 2 1) (gray_img 2 1 [0, 0]) = Some [0, 0] \<and>
   reference (pattern_img 2 1) (gray_img 2 1 [0, 0]) = [0, 2]"
  by (simp add: loop_eval image_eval reference_eval gray_of_0 gray_1_0_0)

text \<open>
  C3. Stride independence: two valid sources of the same size whose pixel bytes agree,
  whatever their strides and padding bytes, converted into two valid destinations,
  whatever their strides and old contents, give the same byte at every pixel. Both runs
  of the loop return.
\<close>

theorem stride_independence:
  assumes "valid_src S1" "valid_src S2" "width S2 = width S1" "height S2 = height S1"
    and "\<forall>r<height S1. \<forall>k<3 * width S1.
           imageData S1 ! (r * widthStep S1 + k) = imageData S2 ! (r * widthStep S2 + k)"
    and "valid_dst S1 D1" "valid_dst S2 D2"
  shows "\<exists>g1 g2. convert S1 D1 = Some g1 \<and> convert S2 D2 = Some g2 \<and>
           (\<forall>r<height S1. \<forall>c<width S1.
              g1 ! (r * widthStep D1 + c) = g2 ! (r * widthStep D2 + c))"
proof -
  from convert_char [OF assms(1,6)] obtain g1 where
    g1: "convert S1 D1 = Some g1"
      "\<forall>r c. r < height S1 \<and> c < width S1 \<longrightarrow>
         g1 ! (r * widthStep D1 + c) = loop_byte (imageData S1) (widthStep S1) r c"
    by blast
  from convert_char [OF assms(2,7)] obtain g2 where
    g2: "convert S2 D2 = Some g2"
      "\<forall>r c. r < height S2 \<and> c < width S2 \<longrightarrow>
         g2 ! (r * widthStep D2 + c) = loop_byte (imageData S2) (widthStep S2) r c"
    by blast
  have "g1 ! (r * widthStep D1 + c) = g2 ! (r * widthStep D2 + c)"
    if "r < height S1" "c < width S1" for r c
  proof -
    have k: "c < 3 * width S1" "c + 1 < 3 * width S1" "c + 2 < 3 * width S1"
      using that(2) by simp_all
    have "imageData S1 ! (r * widthStep S1 + c) = imageData S2 ! (r * widthStep S2 + c)"
      "imageData S1 ! (r * widthStep S1 + (c + 1)) = imageData S2 ! (r * widthStep S2 + (c + 1))"
      "imageData S1 ! (r * widthStep S1 + (c + 2)) = imageData S2 ! (r * widthStep S2 + (c + 2))"
      using assms(5) that(1) k by blast+
    then have "loop_byte (imageData S1) (widthStep S1) r c = loop_byte (imageData S2) (widthStep S2) r c"
      unfolding loop_byte_def index_assoc by (simp only:)
    then show ?thesis using g1(2) g2(2) that assms(3,4) by simp
  qed
  then show ?thesis using g1(1) g2(1) by (intro exI [of _ g1] exI [of _ g2]) simp
qed

text \<open>
  An instance: two rows of one pixel, once with a padding byte per row and once without.
\<close>

theorem stride_independence_witness:
  "\<exists>g1 g2. convert padded_rows (gray_img 1 2 [0, 0]) = Some g1 \<and>
     convert packed_rows (gray_img 1 2 [5, 5]) = Some g2 \<and>
     g1 ! 0 = g2 ! 0 \<and> g1 ! 1 = g2 ! 1"
proof -
  have "valid_src padded_rows" "valid_src packed_rows"
    "width packed_rows = width padded_rows" "height packed_rows = height padded_rows"
    "valid_dst padded_rows (gray_img 1 2 [0, 0])" "valid_dst packed_rows (gray_img 1 2 [5, 5])"
    by (simp_all add: valid_eval image_eval)
  moreover have "\<forall>r<height padded_rows. \<forall>k<3 * width padded_rows.
      imageData padded_rows ! (r * widthStep padded_rows + k) =
      imageData packed_rows ! (r * widthStep packed_rows + k)"
    by (simp add: image_eval all_less_2 all_less_3)
  ultimately have "\<exists>g1 g2. convert padded_rows (gray_img 1 2 [0, 0]) = Some g1 \<and>
      convert packed_rows (gray_img 1 2 [5, 5]) = Some g2 \<and>
      (\<forall>r<height padded_rows. \<forall>c<width padded_rows.
         g1 ! (r * widthStep (gray_img 1 2 [0, 0]) + c) =
         g2 ! (r * widthStep (gray_img 1 2 [5, 5]) + c))"
    by (intro stride_independence)
  then show ?thesis by (simp add: image_eval all_less_2 all_less_1)
qed

text \<open>
  C4. The loop returns on valid descriptors, keeps the size of the destination buffer,
  and leaves every byte that is not at \<open>r * stride + c\<close> for a pixel \<open>(r, c)\<close> of the image
  as it was.
\<close>

theorem padding_untouched:
  assumes "valid_src S" "valid_dst S D"
  shows "\<exists>g'. convert S D = Some g' \<and> length g' = length (imageData D) \<and>
           (\<forall>p. (\<forall>r<height S. \<forall>c<width S. p \<noteq> r * widthStep D + c) \<longrightarrow>
                g' ! p = imageData D ! p)"
proof -
  from convert_char [OF assms] obtain g' where
    g: "convert S D = Some g'" "length g' = length (imageData D)"
      "\<forall>p. (\<forall>r c. r < height S \<and> c < width S \<longrightarrow> p \<noteq> r * widthStep D + c) \<longrightarrow>
         g' ! p = imageData D ! p"
    by blast
  have "g' ! p = imageData D ! p"
    if "\<forall>r<height S. \<forall>c<width S. p \<noteq> r * widthStep D + c" for p
  proof -
    from that have "\<forall>r c. r < height S \<and> c < width S \<longrightarrow> p \<noteq> r * widthStep D + c" by simp
    with g(3) show ?thesis by simp
  qed
  then show ?thesis using g(1,2) by (intro exI [of _ g']) simp
qed

text \<open>
  An instance: the three padding bytes of a one-pixel row keep the value 170.
\<close>

theorem padding_untouched_witness:
  "\<exists>g'. convert one_pixel padded_gray = Some g' \<and> length g' = 4 \<and>
     g' ! 1 = 170 \<and> g' ! 2 = 170 \<and> g' ! 3 = 170"
proof -
  have "valid_src one_pixel" "valid_dst one_pixel padded_gray"
    by (simp_all add: valid_eval image_eval)
  from padding_untouched [OF this] obtain g' where
    g: "convert one_pixel padded_gray = Some g'" "length g' = length (imageData padded_gray)"
      "\<forall>p. (\<forall>r<height one_pixel. \<forall>c<width one_pixel. p \<noteq> r * widthStep padded_gray + c) \<longrightarrow>
         g' ! p = imageData padded_gray ! p"
    by blast
  from g(3) have "g' ! 1 = 170" "g' ! 2 = 170" "g' ! 3 = 170"
    by (simp_all add: image_eval)
  with g(1,2) show ?thesis by (simp add: image_eval)
qed

text \<open>
  C5. A source of one pixel with the bytes 10, 20, 30, whatever its stride and the
  bytes after the pixel, gives the destination byte 21, for any stride and any old content
  of the destination; 21 is the truncation of \<open>0.299 * 30 + 0.587 * 20 + 0.114 * 10\<close>.
\<close>

theorem single_pixel_10_20_30:
  "convert \<lparr>nChannels = 3, depth = 8, width = 1, height = 1, widthStep = colorstep,
             imageData = [10, 20, 30] @ padding\<rparr>
           \<lparr>nChannels = 1, depth = 8, width = 1, height = 1, widthStep = graystep,
             imageData = old # rest\<rparr> = Some (21 # rest) \<and>
   trunc (299 / 1000 * 30 + 587 / 1000 * 20 + 114 / 1000 * 10) = 21"
  by (simp add: loop_eval gray_30_20_10 trunc_def)

theorem single_pixel_10_20_30_witness:
  "convert one_pixel (gray_img 1 1 [0]) = Some [21]"
  using single_pixel_10_20_30 [of 4 "[0]" 1 0 "[]"]
  by (simp add: image_eval)

text \<open>
  C6. When every pixel byte of a valid source is zero, whatever its stride and padding,
  the loop returns and every pixel of the destination is zero.
\<close>

theorem zero_pixels_zero_gray:
  assumes "valid_src S" "valid_dst S D"
    and "\<forall>r<height S. \<forall>k<3 * width S. imageData S ! (r * widthStep S + k) = 0"
  shows "\<exists>g'. convert S D = Some g' \<and>
           (\<forall>r<height S. \<forall>c<width S. g' ! (r * widthStep D + c) = 0)"
proof -
  from convert_char [OF assms(1,2)] obtain g' where
    g: "convert S D = Some g'"
      "\<forall>r c. r < height S \<and> c < width S \<longrightarrow>
         g' ! (r * widthStep D + c) = loop_byte (imageData S) (widthStep S) r c"
    by blast
  have "g' ! (r * widthStep D + c) = 0" if "r < height S" "c < width S" for r c
  proof -
    have k: "c < 3 * width S" "c + 1 < 3 * width S" "c + 2 < 3 * width S"
      using that(2) by simp_all
    have "imageData S ! (r * widthStep S + c) = 0"
      "imageData S ! (r * widthStep S + (c + 1)) = 0"
      "imageData S ! (r * widthStep S + (c + 2)) = 0"
      using assms(3) that(1) k by blast+
    then have "loop_byte (imageData S) (widthStep S) r c = 0"
      unfolding loop_byte_def index_assoc by (simp only: gray_of_0)
    then show ?thesis using g(2) that by simp
  qed
  then show ?thesis using g(1) by (intro exI [of _ g']) simp
qed

text \<open>
  An instance: a row of two black pixels followed by two padding bytes of value 5.
\<close>

theorem zero_pixels_zero_gray_witness:
  "\<exists>g'. convert black_row (gray_img 2 1 [9, 9]) = Some g' \<and> g' ! 0 = 0 \<and> g' ! 1 = 0"
proof -
  have "valid_src black_row" "valid_dst black_row (gray_img 2 1 [9, 9])"
    by (simp_all add: valid_eval image_eval)
  moreover have "\<forall>r<height black_row. \<forall>k<3 * width black_row.
      imageData black_row ! (r * widthStep black_row + k) = 0"
    by (simp add: image_eval all_less_1 all_less_6)
  ultimately have "\<exists>g'. convert black_row (gray_img 2 1 [9, 9]) = Some g' \<and>
      (\<forall>r<height black_row. \<forall>c<width black_row.
         g' ! (r * widthStep (gray_img 2 1 [9, 9]) + c) = 0)"
    by (intro zero_pixels_zero_gray)
  then show ?thesis by (simp add: image_eval all_less_1 all_less_2)
qed




text \<open>
  C8, as amended. On a valid source of width 1 the subscripts of the loop are those of
  the contract, and the loop stores the double evaluation of the formula on the bytes the
  contract names. That byte is the byte of the contract or one less, and it is the byte
  of the contract whenever \<open>299 R + 587 G + 114 B\<close> is not a multiple of 1000.
\<close>

theorem width_one_indexing:
  assumes "valid_src S" "width S = 1" "valid_dst S D"
  shows "\<exists>g'. convert S D = Some g' \<and>
           (\<forall>r<height S.
              blue_index (widthStep S) r 0 = r * widthStep S + 0 * 3 \<and>
              green_index (widthStep S) r 0 = r * widthStep S + 0 * 3 + 1 \<and>
              red_index (widthStep S) r 0 = r * widthStep S + 0 * 3 + 2 \<and>
              g' ! (r * widthStep D + 0) =
                gray_of (imageData S ! (r * widthStep S + 0 * 3 + 2))
                        (imageData S ! (r * widthStep S + 0 * 3 + 1))
                        (imageData S ! (r * widthStep S + 0 * 3)) \<and>
              unat (g' ! (r * widthStep D + 0)) \<le> unat (reference S D ! (r * widthStep D + 0)) \<and>
              unat (reference S D ! (r * widthStep D + 0)) \<le> unat (g' ! (r * widthStep D + 0)) + 1 \<and>
              (\<not> 1000 dvd lum1000 (imageData S ! (r * widthStep S + 0 * 3 + 2))
                                  (imageData S ! (r * widthStep S + 0 * 3 + 1))
                                  (imageData S ! (r * widthStep S + 0 * 3)) \<longrightarrow>
               g' ! (r * widthStep D + 0) = reference S D ! (r * widthStep D + 0)))"
proof -
  from convert_char [OF assms(1,3)] obtain g' where
    g: "convert S D = Some g'"
      "\<forall>r c. r < height S \<and> c < width S \<longrightarrow>
         g' ! (r * widthStep D + c) = loop_byte (imageData S) (widthStep S) r c"
    by blast
  have "blue_index (widthStep S) r 0 = r * widthStep S + 0 * 3 \<and>
        green_index (widthStep S) r 0 = r * widthStep S + 0 * 3 + 1 \<and>
        red_index (widthStep S) r 0 = r * widthStep S + 0 * 3 + 2 \<and>
        g' ! (r * widthStep D + 0) =
          gray_of (imageData S ! (r * widthStep S + 0 * 3 + 2))
                  (imageData S ! (r * widthStep S + 0 * 3 + 1))
                  (imageData S ! (r * widthStep S + 0 * 3)) \<and>
        unat (g' ! (r * widthStep D + 0)) \<le> unat (reference S D ! (r * widthStep D + 0)) \<and>
        unat (reference S D ! (r * widthStep D + 0)) \<le> unat (g' ! (r * widthStep D + 0)) + 1 \<and>
        (\<not> 1000 dvd lum1000 (imageData S ! (r * widthStep S + 0 * 3 + 2))
                            (imageData S ! (r * widthStep S + 0 * 3 + 1))
                            (imageData S ! (r * widthStep S + 0 * 3)) \<longrightarrow>
         g' ! (r * widthStep D + 0) = reference S D ! (r * widthStep D + 0))"
    if r: "r < height S" for r
  proof -
    define red where "red = imageData S ! (r * widthStep S + 0 * 3 + 2)"
    define green where "green = imageData S ! (r * widthStep S + 0 * 3 + 1)"
    define blue where "blue = imageData S ! (r * widthStep S + 0 * 3)"
    have c0: "(0::nat) < width S" using assms(2) by simp
    have "g' ! (r * widthStep D + 0) = loop_byte (imageData S) (widthStep S) r 0"
      using g(2) r c0 by blast
    then have code: "g' ! (r * widthStep D + 0) = gray_of red green blue"
      by (simp add: loop_byte_def red_index_def green_index_def blue_index_def
          red_def green_def blue_def)
    have ref: "reference S D ! (r * widthStep D + 0) = gray_contract red green blue"
      unfolding reference_nth [OF assms(3) r c0]
      by (simp add: contract_byte_def red_def green_def blue_def)
    have "unat (gray_of red green blue) = unat (gray_contract red green blue)"
      if "\<not> 1000 dvd lum1000 red green blue"
      using gray_of_exact [OF that] by (simp only: gray_contract_eq)
    then have eq: "\<not> 1000 dvd lum1000 red green blue \<longrightarrow>
        gray_of red green blue = gray_contract red green blue"
      by (simp add: word_unat_eq_iff)
    show ?thesis
      unfolding code ref red_def [symmetric] green_def [symmetric] blue_def [symmetric]
      using eq gray_of_upper [of red green blue] gray_of_lower [of red green blue]
      by (simp add: gray_contract_eq blue_index_def green_index_def red_index_def)
  qed
  with g(1) show ?thesis by blast
qed

text \<open>
  An instance: the pixel \<open>(10, 20, 30)\<close>, where the loop and the contract agree.
\<close>

theorem width_one_indexing_witness:
  "\<exists>g'. convert one_pixel (gray_img 1 1 [0]) = Some g' \<and>
     g' ! 0 = gray_of 30 20 10 \<and> g' ! 0 = reference one_pixel (gray_img 1 1 [0]) ! 0"
proof -
  have "valid_src one_pixel" "width one_pixel = 1" "valid_dst one_pixel (gray_img 1 1 [0])"
    by (simp_all add: valid_eval image_eval)
  from width_one_indexing [OF this] obtain g' where
    g: "convert one_pixel (gray_img 1 1 [0]) = Some g'"
      "\<forall>r<height one_pixel.
         g' ! (r * widthStep (gray_img 1 1 [0]) + 0) =
           gray_of (imageData one_pixel ! (r * widthStep one_pixel + 0 * 3 + 2))
                   (imageData one_pixel ! (r * widthStep one_pixel + 0 * 3 + 1))
                   (imageData one_pixel ! (r * widthStep one_pixel + 0 * 3)) \<and>
         (\<not> 1000 dvd lum1000 (imageData one_pixel ! (r * widthStep one_pixel + 0 * 3 + 2))
                             (imageData one_pixel ! (r * widthStep one_pixel + 0 * 3 + 1))
                             (imageData one_pixel ! (r * widthStep one_pixel + 0 * 3)) \<longrightarrow>
          g' ! (r * widthStep (gray_img 1 1 [0]) + 0) =
            reference one_pixel (gray_img 1 1 [0]) ! (r * widthStep (gray_img 1 1 [0]) + 0))"
    by blast
  have h: "0 < height one_pixel" by (simp add: one_pixel_def)
  from g(2) h have inst:
    "g' ! (0 * widthStep (gray_img 1 1 [0]) + 0) =
       gray_of (imageData one_pixel ! (0 * widthStep one_pixel + 0 * 3 + 2))
               (imageData one_pixel ! (0 * widthStep one_pixel + 0 * 3 + 1))
               (imageData one_pixel ! (0 * widthStep one_pixel + 0 * 3)) \<and>
     (\<not> 1000 dvd lum1000 (imageData one_pixel ! (0 * widthStep one_pixel + 0 * 3 + 2))
                         (imageData one_pixel ! (0 * widthStep one_pixel + 0 * 3 + 1))
                         (imageData one_pixel ! (0 * widthStep one_pixel + 0 * 3)) \<longrightarrow>
      g' ! (0 * widthStep (gray_img 1 1 [0]) + 0) =
        reference one_pixel (gray_img 1 1 [0]) ! (0 * widthStep (gray_img 1 1 [0]) + 0))"
    by blast
  have nd: "\<not> 1000 dvd lum1000 (imageData one_pixel ! (0 * widthStep one_pixel + 0 * 3 + 2))
                         (imageData one_pixel ! (0 * widthStep one_pixel + 0 * 3 + 1))
                         (imageData one_pixel ! (0 * widthStep one_pixel + 0 * 3))"
    by (simp add: one_pixel_def lum1000_def)
  from inst have a: "g' ! 0 = gray_of 30 20 10" by (simp add: one_pixel_def)
  from inst nd have "g' ! (0 * widthStep (gray_img 1 1 [0]) + 0) =
        reference one_pixel (gray_img 1 1 [0]) ! (0 * widthStep (gray_img 1 1 [0]) + 0)"
    by blast
  then have b: "g' ! 0 = reference one_pixel (gray_img 1 1 [0]) ! 0" by simp
  from g(1) a b show ?thesis by blast
qed

text \<open>
  C8 as stated fails: for the single mid-gray pixel \<open>(128, 128, 128)\<close>, a scenario of
  section 8 of the specification, the loop stores 127 and the contract asks for 128.
\<close>

theorem width_one_not_contract:
  "width mid_gray = 1 \<and> valid_src mid_gray \<and> valid_dst mid_gray (gray_img 1 1 [0]) \<and>
   convert mid_gray (gray_img 1 1 [0]) = Some [127] \<and>
   reference mid_gray (gray_img 1 1 [0]) = [128]"
  by (simp add: loop_eval image_eval reference_eval valid_eval gray_128)

text \<open>
  C9. For a column inside the row, the three subscripts of the reads are increasing and
  lie in the pixel bytes of the row, from \<open>row * colorstep\<close> up to but excluding
  \<open>row * colorstep + 3 * w\<close>; the body of the loop gives the same result on any other
  buffer of the same size that holds the same pixel bytes in that row, so the padding is
  never read.
\<close>

theorem reads_inside_pixel_bytes:
  assumes "col < w"
  shows "row * colorstep \<le> blue_index colorstep row col \<and>
         blue_index colorstep row col < green_index colorstep row col \<and>
         green_index colorstep row col < red_index colorstep row col \<and>
         red_index colorstep row col < row * colorstep + 3 * w \<and>
         (\<forall>other. length other = length colorData \<and>
                  (\<forall>k<3 * w. other ! (row * colorstep + k) = colorData ! (row * colorstep + k)) \<longrightarrow>
            pixel other colorstep graystep row col grayData =
            pixel colorData colorstep graystep row col grayData)"
proof -
  have k: "col < 3 * w" "col + 1 < 3 * w" "col + 2 < 3 * w" using assms by simp_all
  have "pixel other colorstep graystep row col grayData =
        pixel colorData colorstep graystep row col grayData"
    if "length other = length colorData"
      "\<forall>k<3 * w. other ! (row * colorstep + k) = colorData ! (row * colorstep + k)" for other
  proof -
    have "other ! (row * colorstep + col) = colorData ! (row * colorstep + col)"
      "other ! (row * colorstep + (col + 1)) = colorData ! (row * colorstep + (col + 1))"
      "other ! (row * colorstep + (col + 2)) = colorData ! (row * colorstep + (col + 2))"
      using that(2) k by blast+
    then show ?thesis
      unfolding pixel_def read_at_def index_assoc that(1) by (simp only:)
  qed
  then have "\<forall>other. length other = length colorData \<and>
                  (\<forall>k<3 * w. other ! (row * colorstep + k) = colorData ! (row * colorstep + k)) \<longrightarrow>
            pixel other colorstep graystep row col grayData =
            pixel colorData colorstep graystep row col grayData"
    by blast
  moreover have "row * colorstep \<le> blue_index colorstep row col"
    "blue_index colorstep row col < green_index colorstep row col"
    "green_index colorstep row col < red_index colorstep row col"
    "red_index colorstep row col < row * colorstep + 3 * w"
    using assms by (simp_all add: blue_index_def green_index_def red_index_def)
  ultimately show ?thesis by (intro conjI)
qed

theorem reads_inside_pixel_bytes_witness:
  "(1::nat) < 2 \<and> 0 * 6 \<le> blue_index 6 0 1 \<and> blue_index 6 0 1 < green_index 6 0 1 \<and>
   green_index 6 0 1 < red_index 6 0 1 \<and> red_index 6 0 1 < 0 * 6 + 3 * 2"
proof -
  have "(1::nat) < 2" by simp
  from reads_inside_pixel_bytes [OF this, of 0 6 "imageData two_pixels" 2 "[0, 0]"]
  show ?thesis by simp
qed

text \<open>
  C10, as amended. On valid descriptors the byte stored for a pixel is at most the
  largest of the three bytes read for it. It is at least the smallest of them unless the
  three bytes are equal; in every case it is at least the smallest less one, so for three
  equal bytes it is that byte or one less.
\<close>

theorem gray_within_range_unless_equal:
  assumes "valid_src S" "valid_dst S D"
  shows "\<exists>g'. convert S D = Some g' \<and>
           (\<forall>r<height S. \<forall>c<width S.
              g' ! gray_index (widthStep D) r c
                \<le> max (imageData S ! blue_index (widthStep S) r c)
                     (max (imageData S ! green_index (widthStep S) r c)
                          (imageData S ! red_index (widthStep S) r c)) \<and>
              (\<not> (imageData S ! blue_index (widthStep S) r c =
                    imageData S ! green_index (widthStep S) r c \<and>
                  imageData S ! green_index (widthStep S) r c =
                    imageData S ! red_index (widthStep S) r c) \<longrightarrow>
               min (imageData S ! blue_index (widthStep S) r c)
                 (min (imageData S ! green_index (widthStep S) r c)
                      (imageData S ! red_index (widthStep S) r c))
                 \<le> g' ! gray_index (widthStep D) r c) \<and>
              unat (min (imageData S ! blue_index (widthStep S) r c)
                     (min (imageData S ! green_index (widthStep S) r c)
                          (imageData S ! red_index (widthStep S) r c)))
                \<le> unat (g' ! gray_index (widthStep D) r c) + 1)"
proof -
  from convert_char [OF assms] obtain g' where
    g: "convert S D = Some g'"
      "\<forall>r c. r < height S \<and> c < width S \<longrightarrow>
         g' ! (r * widthStep D + c) = loop_byte (imageData S) (widthStep S) r c"
    by blast
  have "g' ! gray_index (widthStep D) r c = loop_byte (imageData S) (widthStep S) r c"
    if "r < height S" "c < width S" for r c
    using g(2) that by (simp add: gray_index_def)
  then show ?thesis
    using g(1) gray_of_min_max gray_of_min_unequal
    by (intro exI [of _ g']) (simp add: loop_byte_def)
qed

text \<open>
  An instance: the pixel \<open>(10, 20, 30)\<close>, where the stored byte lies between 10 and 30.
\<close>

theorem gray_within_range_unless_equal_witness:
  "\<exists>g'. convert one_pixel (gray_img 1 1 [0]) = Some g' \<and> g' ! 0 \<le> 30 \<and> 10 \<le> g' ! 0"
proof -
  have "valid_src one_pixel" "valid_dst one_pixel (gray_img 1 1 [0])"
    by (simp_all add: valid_eval image_eval)
  from gray_within_range_unless_equal [OF this]
  have "\<exists>g'. convert one_pixel (gray_img 1 1 [0]) = Some g' \<and>
      g' ! 0 \<le> 30 \<and> 10 \<le> g' ! 0 \<and> 9 \<le> unat (g' ! 0)"
    by (simp add: one_pixel_def gray_img_def all_less_1 blue_index_def green_index_def
        red_index_def gray_index_def)
  then show ?thesis by blast
qed

text \<open>
  C10 as stated fails: for the pixel \<open>(1, 1, 1)\<close> the loop stores 0, below the smallest
  byte read.
\<close>

theorem gray_below_minimum:
  "convert three_ones (gray_img 1 1 [9]) = Some [0] \<and>
   min (imageData three_ones ! blue_index (widthStep three_ones) 0 0)
     (min (imageData three_ones ! green_index (widthStep three_ones) 0 0)
          (imageData three_ones ! red_index (widthStep three_ones) 0 0)) = 1 \<and>
   (0 :: uchar) < 1"
  by (simp add: loop_eval image_eval gray_111)

end
